theory Spec2Isabelle
  imports Main
begin

section \<open>The IR: values, operations, use lists and blocks\<close>

text \<open>
  The pass of \<^verbatim>\<open>tpu_extract_head_tail_outside_compilation.cc\<close> works on an MLIR module.
  The model keeps what the pass reads and writes:
  \<^item> a value is a block argument of the enclosing function or the \<open>i\<close>-th result of an
    operation;
  \<^item> an operation has an ordered operand list, a number of results and possibly a string
    attribute \<^verbatim>\<open>_xla_outside_compilation\<close>;
  \<^item> every value has a use list, an ordered chain of operand slots \<open>(owner, slot)\<close>; the
    chain holds every use of the value, wherever in the module the owner lives;
  \<^item> the module body is one block; region operations (\<^verbatim>\<open>tf_device.cluster\<close>,
    \<^verbatim>\<open>tf_device.launch\<close>) sit in that block and own one block of operations each.
  Operations are addressed by stable indices into a table, new operations take the next
  free index. Types and locations are not tracked.

  The model covers modules of two levels: the operations of a region body own no region
  themselves, and every cluster lies in the module body. A cluster nested in another
  region operation, or a region operation inside a cluster body, is outside the model.
\<close>

type_synonym op_id = nat

datatype val = BlockArgument nat | OpResult op_id nat

datatype op_kind = GenericOp | ClusterOp | LaunchOp | ReturnOp

record operation =
  kind :: op_kind
  operands :: "val list"
  num_results :: nat
  outside_compilation :: "string option"

type_synonym op_operand = "op_id \<times> nat"

record ir =
  op_table :: "op_id \<Rightarrow> operation"
  op_count :: nat
  use_list :: "val \<Rightarrow> op_operand list"
  module_body :: "op_id list"
  region_body :: "op_id \<Rightarrow> op_id list"

definition getOpResults :: "ir \<Rightarrow> op_id \<Rightarrow> val list" where
  "getOpResults g op = map (OpResult op) [0..<num_results (op_table g op)]"

definition getOperands :: "ir \<Rightarrow> op_id \<Rightarrow> val list" where
  "getOperands g op = operands (op_table g op)"

text \<open>\<^verbatim>\<open>Operation::getUsers\<close>: the owners of the uses of all results, result by result.\<close>

definition getUsers :: "ir \<Rightarrow> op_id \<Rightarrow> op_id list" where
  "getUsers g op = concat (map (\<lambda>r. map fst (use_list g r)) (getOpResults g op))"

text \<open>\<^verbatim>\<open>llvm::SetVector::insert\<close>: append unless already present.\<close>

definition sv_insert :: "'a \<Rightarrow> 'a list \<Rightarrow> 'a list" where
  "sv_insert x xs = (if x \<in> set xs then xs else xs @ [x])"

definition sv_insert_range :: "'a list \<Rightarrow> 'a list \<Rightarrow> 'a list" where
  "sv_insert_range ys xs = fold sv_insert ys xs"

section \<open>Boundary analysis\<close>

text \<open>
  Modelled from the spec: \<^verbatim>\<open>getUsedValuesDefinedAbove\<close> is called by
  \<^verbatim>\<open>IdentifyOutsideCompiledOpsAtHead\<close> but belongs to MLIR's region utilities, not to
  the unit. Section 4.1 of the specification describes it: one traversal of the operations
  of the body collects the operand values that are not defined within the body, without
  duplicates and in first-seen order. In MLIR's terms these are the operands defined in a
  region that properly encloses the body; for a cluster in the module body they are the
  block arguments and the results of the operations of the module body. The traversal
  enters nested regions; in the two-level modules of the model the operations of a
  cluster body own none, so it visits the block of the cluster only.
\<close>

definition defined_above :: "ir \<Rightarrow> val \<Rightarrow> bool" where
  "defined_above g v = (case v of BlockArgument n \<Rightarrow> True | OpResult p i \<Rightarrow> p \<in> set (module_body g))"

definition getUsedValuesDefinedAbove :: "ir \<Rightarrow> op_id \<Rightarrow> val list" where
  "getUsedValuesDefinedAbove g cluster =
     fold (\<lambda>op values. fold (\<lambda>operand values. if defined_above g operand then sv_insert operand values else values)
                          (getOperands g op) values)
          (region_body g cluster) []"

section \<open>The head-set builder\<close>

text \<open>
  \<^verbatim>\<open>getAttrOfType<StringAttr>(kXlaOutsideCompilationAttr)\<close> is non-null when the operation
  has the attribute \<^verbatim>\<open>_xla_outside_compilation\<close> and it is a string; the field
  \<open>outside_compilation\<close> holds that string.
\<close>

definition HasOutsideCompilationAttribute :: "ir \<Rightarrow> op_id \<Rightarrow> bool" where
  "HasOutsideCompilationAttribute g op = (outside_compilation (op_table g op) \<noteq> None)"

definition OpContainsOperandsFromSet :: "ir \<Rightarrow> op_id \<Rightarrow> val list \<Rightarrow> bool" where
  "OpContainsOperandsFromSet g op input_value_set =
     list_all (\<lambda>operand. operand \<in> set input_value_set) (getOperands g op)"

text \<open>
  The state threaded through the builder is a pair: a set vector of operations and the
  set vector \<open>outside_compiled_op_usages\<close> of values that may feed a hoisted operation.
\<close>

definition RecordOutsideCompiledOpsAndUsages ::
  "ir \<Rightarrow> op_id \<Rightarrow> op_id list \<times> val list \<Rightarrow> op_id list \<times> val list" where
  "RecordOutsideCompiledOpsAndUsages g op st =
     (case st of (outside_compiled_ops, outside_compiled_op_usages) \<Rightarrow>
        if HasOutsideCompilationAttribute g op \<and>
           OpContainsOperandsFromSet g op outside_compiled_op_usages
        then (sv_insert op outside_compiled_ops,
              sv_insert_range (getOpResults g op) outside_compiled_op_usages)
        else st)"

text \<open>The first loop of \<^verbatim>\<open>ExtractOutsideCompiledOpsConnectedToHead\<close>: the owners of the
  uses of the input value.\<close>

definition record_uses :: "ir \<Rightarrow> val \<Rightarrow> op_id list \<times> val list \<Rightarrow> op_id list \<times> val list" where
  "record_uses g v st = fold (\<lambda>use. RecordOutsideCompiledOpsAndUsages g (fst use)) (use_list g v) st"

text \<open>The body of the while loop: for every operation of the current front, every result,
  every use of the result.\<close>

definition record_connected :: "ir \<Rightarrow> op_id list \<Rightarrow> op_id list \<times> val list \<Rightarrow> op_id list \<times> val list" where
  "record_connected g parent st =
     fold (\<lambda>head_outside_compiled_op. fold (record_uses g) (getOpResults g head_outside_compiled_op))
          parent st"

text \<open>The while loop. It need not end on a cyclic graph, so it returns an option.\<close>

partial_function (option) traverse_connected ::
  "ir \<Rightarrow> op_id list \<Rightarrow> val list \<Rightarrow> op_id list \<Rightarrow> (val list \<times> op_id list) option" where
  "traverse_connected g parent usages outside_compiled_ops =
     (if parent = [] then Some (usages, outside_compiled_ops)
      else case record_connected g parent ([], usages) of
             (connected, usages') \<Rightarrow>
               traverse_connected g connected usages' (sv_insert_range parent outside_compiled_ops))"

declare traverse_connected.simps [code]

definition ExtractOutsideCompiledOpsConnectedToHead ::
  "ir \<Rightarrow> val \<Rightarrow> val list \<times> op_id list \<Rightarrow> (val list \<times> op_id list) option" where
  "ExtractOutsideCompiledOpsConnectedToHead g input_value st =
     (case st of (values_used_in_host_cluster, outside_compiled_ops) \<Rightarrow>
        case record_uses g input_value ([], values_used_in_host_cluster) of
          (parent, usages) \<Rightarrow> traverse_connected g parent usages outside_compiled_ops)"

fun extract_inputs :: "ir \<Rightarrow> val list \<Rightarrow> val list \<times> op_id list \<Rightarrow> (val list \<times> op_id list) option" where
  "extract_inputs g [] st = Some st"
| "extract_inputs g (input_value # rest) st =
     (case ExtractOutsideCompiledOpsConnectedToHead g input_value st of
        None \<Rightarrow> None
      | Some st' \<Rightarrow> extract_inputs g rest st')"

definition IdentifyOutsideCompiledOpsAtHead :: "ir \<Rightarrow> op_id \<Rightarrow> op_id list option" where
  "IdentifyOutsideCompiledOpsAtHead g tpu_cluster =
     (let values_used_in_cluster = getUsedValuesDefinedAbove g tpu_cluster
      in map_option snd (extract_inputs g values_used_in_cluster (values_used_in_cluster, [])))"

section \<open>The output classifier\<close>

definition has_outside_user :: "ir \<Rightarrow> op_id list \<Rightarrow> op_id \<Rightarrow> bool" where
  "has_outside_user g head_outside_compiled_ops op =
     list_ex (\<lambda>user. user \<notin> set head_outside_compiled_ops) (getUsers g op)"

definition GetHeadExtractedClusterOutputs :: "ir \<Rightarrow> op_id list \<Rightarrow> val list" where
  "GetHeadExtractedClusterOutputs g head_outside_compiled_ops =
     concat (map (\<lambda>op. if has_outside_user g head_outside_compiled_ops op
                        then getOpResults g op else [])
                 head_outside_compiled_ops)"

section \<open>The region mutator\<close>

text \<open>
  The mutator works through MLIR's builder and use lists, which are not part of the unit.
  Creating an operation: it takes the next index, its results have no uses, and each of
  its operands is linked at the front of the use list of the value it reads (MLIR's
  \<^verbatim>\<open>IROperand::insertIntoCurrent\<close>). The launch is created before the cluster, in the
  block of the cluster, which in the model is the module body.
\<close>

definition fresh_results_unused :: "ir \<Rightarrow> op_id \<Rightarrow> val \<Rightarrow> op_operand list" where
  "fresh_results_unused g new v =
     (case v of BlockArgument n \<Rightarrow> use_list g v
              | OpResult p i \<Rightarrow> if p = new then [] else use_list g v)"

definition insert_before :: "op_id \<Rightarrow> op_id \<Rightarrow> op_id list \<Rightarrow> op_id list" where
  "insert_before anchor new xs =
     (if anchor \<in> set xs
      then takeWhile (\<lambda>x. x \<noteq> anchor) xs @ new # dropWhile (\<lambda>x. x \<noteq> anchor) xs
      else xs)"

definition create_launch :: "ir \<Rightarrow> op_id \<Rightarrow> nat \<Rightarrow> ir \<times> op_id" where
  "create_launch g cluster n =
     (let host_launch_op = op_count g
      in (g\<lparr>op_table := (op_table g)(host_launch_op :=
                \<lparr>kind = LaunchOp, operands = [], num_results = n, outside_compilation = None\<rparr>),
             op_count := Suc host_launch_op,
             use_list := fresh_results_unused g host_launch_op,
             module_body := insert_before cluster host_launch_op (module_body g)\<rparr>,
          host_launch_op))"

text \<open>\<^verbatim>\<open>host_launch_op.body().push_back(new Block())\<close>: the launch gets an empty block.\<close>

definition push_back_block :: "op_id \<Rightarrow> ir \<Rightarrow> ir" where
  "push_back_block launch g = g\<lparr>region_body := (region_body g)(launch := [])\<rparr>"

definition link_operand :: "op_operand \<Rightarrow> val \<Rightarrow> ir \<Rightarrow> ir" where
  "link_operand use v g = g\<lparr>use_list := (use_list g)(v := use # use_list g v)\<rparr>"

definition create_return :: "ir \<Rightarrow> op_id \<Rightarrow> val list \<Rightarrow> ir \<times> op_id" where
  "create_return g launch output_values =
     (let terminator = op_count g;
          g1 = g\<lparr>op_table := (op_table g)(terminator :=
                  \<lparr>kind = ReturnOp, operands = output_values, num_results = 0,
                   outside_compilation = None\<rparr>),
                 op_count := Suc terminator,
                 region_body := (region_body g)(launch := region_body g launch @ [terminator])\<rparr>
      in (fold (\<lambda>(i, v). link_operand (terminator, i) v) (enumerate 0 output_values) g1,
          terminator))"

text \<open>
  \<^verbatim>\<open>use.set(v)\<close> is MLIR's \<^verbatim>\<open>IROperand::set\<close>, that is
  \<^verbatim>\<open>removeFromCurrent(); value = newValue; insertIntoCurrent();\<close>: the operand slot is
  unlinked from the use list of the value \<open>old\<close> it reads, then made to read \<open>v\<close> and
  linked at the front of the use list of \<open>v\<close>.
\<close>

definition unlink_operand :: "op_operand \<Rightarrow> val \<Rightarrow> ir \<Rightarrow> ir" where
  "unlink_operand use old g = g\<lparr>use_list := (use_list g)(old := remove1 use (use_list g old))\<rparr>"

definition store_operand :: "op_operand \<Rightarrow> val \<Rightarrow> ir \<Rightarrow> ir" where
  "store_operand use v g =
     (let owner = op_table g (fst use)
      in g\<lparr>op_table := (op_table g)(fst use := owner\<lparr>operands := (operands owner)[snd use := v]\<rparr>)\<rparr>)"

definition use_set :: "op_operand \<Rightarrow> val \<Rightarrow> val \<Rightarrow> ir \<Rightarrow> ir" where
  "use_set use old v g = link_operand use v (store_operand use v (unlink_operand use old g))"

text \<open>
  The loop \<^verbatim>\<open>for (auto& use : output.getUses())\<close> walks a use chain with MLIR's
  \<^verbatim>\<open>ValueUseIterator\<close>, whose increment is
  \<^verbatim>\<open>current = current->getNextOperandUsingThisValue()\<close>: it reads the next link of the
  operand it stands on. In \<open>replace_uses\<close> the argument \<open>chain\<close> is what remains to be
  visited and \<open>current\<close> is the value whose chain that is (at first \<open>output\<close>). An
  operand owned by a head-set operation is skipped and the walk goes on in the same
  chain. After \<^verbatim>\<open>use.set(new_value)\<close> the operand stands at the front of the use list
  of the new value, so its next link, and the rest of the walk, is what that list held
  before the call.
\<close>

partial_function (option) replace_uses ::
  "op_id list \<Rightarrow> val \<Rightarrow> val \<Rightarrow> op_operand list \<Rightarrow> ir \<Rightarrow> ir option" where
  "replace_uses head_outside_compiled_ops new_value current chain g =
     (case chain of
        [] \<Rightarrow> Some g
      | use # rest \<Rightarrow>
          if fst use \<in> set head_outside_compiled_ops
          then replace_uses head_outside_compiled_ops new_value current rest g
          else replace_uses head_outside_compiled_ops new_value new_value
                 (use_list (unlink_operand use current g) new_value)
                 (use_set use current new_value g))"

declare replace_uses.simps [code]

fun replace_outputs :: "op_id list \<Rightarrow> op_id \<Rightarrow> (nat \<times> val) list \<Rightarrow> ir \<Rightarrow> ir option" where
  "replace_outputs head_outside_compiled_ops launch [] g = Some g"
| "replace_outputs head_outside_compiled_ops launch ((output_index, output) # rest) g =
     (case replace_uses head_outside_compiled_ops (OpResult launch output_index) output
             (use_list g output) g of
        None \<Rightarrow> None
      | Some g' \<Rightarrow> replace_outputs head_outside_compiled_ops launch rest g')"

text \<open>\<^verbatim>\<open>op->moveBefore(terminator)\<close>: unlink the operation from its block and link it
  before the terminator.\<close>

definition moveBefore :: "op_id \<Rightarrow> op_id \<Rightarrow> ir \<Rightarrow> ir" where
  "moveBefore terminator op g =
     g\<lparr>module_body := insert_before terminator op (removeAll op (module_body g)),
       region_body := (\<lambda>r. insert_before terminator op (removeAll op (region_body g r)))\<rparr>"

definition IsolateHeadExtractedOpsToLaunchOp ::
  "ir \<Rightarrow> op_id \<Rightarrow> op_id list \<Rightarrow> (ir \<times> op_id option) option" where
  "IsolateHeadExtractedOpsToLaunchOp g cluster head_outside_compiled_ops =
     (if head_outside_compiled_ops = [] then Some (g, None)
      else
        let output_values = GetHeadExtractedClusterOutputs g head_outside_compiled_ops in
        case create_launch g cluster (length output_values) of
          (g1, host_launch_op) \<Rightarrow>
            (case replace_outputs head_outside_compiled_ops host_launch_op
                    (enumerate 0 output_values) g1 of
               None \<Rightarrow> None
             | Some g2 \<Rightarrow>
                 (case create_return (push_back_block host_launch_op g2) host_launch_op
                         output_values of
                    (g3, terminator) \<Rightarrow>
                      Some (fold (moveBefore terminator) head_outside_compiled_ops g3,
                            Some host_launch_op))))"

section \<open>The driver\<close>

text \<open>
  \<^verbatim>\<open>tensorflow::GetDevicesFromOp\<close> is declared in \<^verbatim>\<open>device_util.h\<close> and is not part
  of the unit; the pass takes it as a parameter that yields the devices or fails. The
  devices are not used after the check. \<^verbatim>\<open>module.walk\<close> visits every cluster operation
  of the module; in the two-level modules of the model these are the clusters of the
  module body, in block order, and each is handed to the builder and then to the mutator.
\<close>

fun walk_clusters :: "op_id list \<Rightarrow> ir \<Rightarrow> ir option" where
  "walk_clusters [] g = Some g"
| "walk_clusters (cluster # rest) g =
     (case IdentifyOutsideCompiledOpsAtHead g cluster of
        None \<Rightarrow> None
      | Some head_outside_compiled_ops \<Rightarrow>
          (case IsolateHeadExtractedOpsToLaunchOp g cluster head_outside_compiled_ops of
             None \<Rightarrow> None
           | Some (g', launch) \<Rightarrow> walk_clusters rest g'))"

definition cluster_ops :: "ir \<Rightarrow> op_id list" where
  "cluster_ops g = filter (\<lambda>op. kind (op_table g op) = ClusterOp) (module_body g)"

datatype pass_result = PassSuccess | PassFailure

definition runOnOperation :: "(ir \<Rightarrow> 'd option) \<Rightarrow> ir \<Rightarrow> (pass_result \<times> ir) option" where
  "runOnOperation GetDevicesFromOp g =
     (case GetDevicesFromOp g of
        None \<Rightarrow> Some (PassFailure, g)
      | Some devices \<Rightarrow> map_option (Pair PassSuccess) (walk_clusters (cluster_ops g) g))"

section \<open>Observing the result of the mutator and of the pass\<close>

text \<open>
  The mutator returns the new module and the launch it created, if any; the pass returns
  its result flag and the new module. These projections read one component each.
\<close>

definition created_launch :: "(ir \<times> op_id option) option \<Rightarrow> op_id option" where
  "created_launch r = (case r of Some (g', Some launch) \<Rightarrow> Some launch | _ \<Rightarrow> None)"

definition body_after :: "(ir \<times> op_id option) option \<Rightarrow> op_id \<Rightarrow> op_id list" where
  "body_after r region = (case r of Some (g', launch) \<Rightarrow> region_body g' region | None \<Rightarrow> [])"

definition operands_after :: "(ir \<times> op_id option) option \<Rightarrow> op_id \<Rightarrow> val list" where
  "operands_after r op = (case r of Some (g', launch) \<Rightarrow> getOperands g' op | None \<Rightarrow> [])"

definition results_after :: "(ir \<times> op_id option) option \<Rightarrow> op_id \<Rightarrow> nat" where
  "results_after r op = (case r of Some (g', launch) \<Rightarrow> num_results (op_table g' op) | None \<Rightarrow> 0)"

text \<open>\<open>precedes x y block\<close>: both are in the block and \<open>x\<close> comes before \<open>y\<close>.\<close>

definition precedes :: "op_id \<Rightarrow> op_id \<Rightarrow> op_id list \<Rightarrow> bool" where
  "precedes x y block = (y \<in> set block \<and> x \<in> set (takeWhile (\<lambda>z. z \<noteq> y) block))"

definition blocks_after_run :: "(pass_result \<times> ir) option \<Rightarrow> (op_id list \<times> op_id list list) option" where
  "blocks_after_run run =
     (case run of
        Some (r, g) \<Rightarrow> Some (module_body g, map (region_body g) [0..<op_count g])
      | None \<Rightarrow> None)"

definition operands_after_run :: "(pass_result \<times> ir) option \<Rightarrow> val list list option" where
  "operands_after_run run =
     (case run of Some (r, g) \<Rightarrow> Some (map (getOperands g) [0..<op_count g]) | None \<Rightarrow> None)"

definition head_after_run :: "(pass_result \<times> ir) option \<Rightarrow> op_id \<Rightarrow> op_id list option" where
  "head_after_run run cluster =
     (case run of Some (r, g) \<Rightarrow> IdentifyOutsideCompiledOpsAtHead g cluster | None \<Rightarrow> None)"

text \<open>Running the pass again on the module a run produced.\<close>

definition rerun :: "(ir \<Rightarrow> 'd option) \<Rightarrow> (pass_result \<times> ir) option \<Rightarrow> (pass_result \<times> ir) option" where
  "rerun GetDevicesFromOp run =
     (case run of Some (r, g) \<Rightarrow> runOnOperation GetDevicesFromOp g | None \<Rightarrow> None)"

section \<open>Example modules\<close>

text \<open>
  Concrete modules are written as a table of operations, the use lists, the module body
  and the region bodies. Use lists are given in MLIR's order: the most recently created
  operand comes first.
\<close>

definition table_of :: "operation list \<Rightarrow> op_id \<Rightarrow> operation" where
  "table_of xs i =
     (if i < length xs then xs ! i
      else \<lparr>kind = GenericOp, operands = [], num_results = 0, outside_compilation = None\<rparr>)"

definition lookup_list :: "('a \<times> 'b list) list \<Rightarrow> 'a \<Rightarrow> 'b list" where
  "lookup_list al k = (case map_of al k of None \<Rightarrow> [] | Some xs \<Rightarrow> xs)"

definition mk_ir ::
  "operation list \<Rightarrow> (val \<times> op_operand list) list \<Rightarrow> op_id list \<Rightarrow> (op_id \<times> op_id list) list \<Rightarrow> ir" where
  "mk_ir table links block regions =
     \<lparr>op_table = table_of table, op_count = length table, use_list = lookup_list links,
      module_body = block, region_body = lookup_list regions\<rparr>"

definition host_op :: "val list \<Rightarrow> nat \<Rightarrow> operation" where
  "host_op xs n =
     \<lparr>kind = GenericOp, operands = xs, num_results = n, outside_compilation = Some ''cluster1''\<rparr>"

definition device_op :: "val list \<Rightarrow> nat \<Rightarrow> operation" where
  "device_op xs n = \<lparr>kind = GenericOp, operands = xs, num_results = n, outside_compilation = None\<rparr>"

definition cluster_op :: operation where
  "cluster_op = \<lparr>kind = ClusterOp, operands = [], num_results = 0, outside_compilation = None\<rparr>"

definition return_op :: operation where
  "return_op = \<lparr>kind = ReturnOp, operands = [], num_results = 0, outside_compilation = None\<rparr>"

text \<open>
  Cluster 0 holds \<open>%1 = A(%arg0)\<close> (tagged), \<open>B(%1)\<close>, \<open>C(%1)\<close> (both untagged) and
  its terminator.
\<close>

definition two_users :: ir where
  "two_users = mk_ir
     [cluster_op, host_op [BlockArgument 0] 1, device_op [OpResult 1 0] 0,
      device_op [OpResult 1 0] 0, return_op]
     [(BlockArgument 0, [(1, 0)]), (OpResult 1 0, [(3, 0), (2, 0)])]
     [0] [(0, [1, 2, 3, 4])]"

text \<open>
  Cluster 0 holds \<open>%1 = A(%arg0)\<close>, \<open>%2 = B(%arg1)\<close>, \<open>%3 = C(%1)\<close> (all tagged),
  \<open>D(%2, %3)\<close> (untagged) and its terminator.
\<close>

definition interleaved :: ir where
  "interleaved = mk_ir
     [cluster_op, host_op [BlockArgument 0] 1, host_op [BlockArgument 1] 1,
      host_op [OpResult 1 0] 1, device_op [OpResult 2 0, OpResult 3 0] 0, return_op]
     [(BlockArgument 0, [(1, 0)]), (BlockArgument 1, [(2, 0)]), (OpResult 1 0, [(3, 0)]),
      (OpResult 2 0, [(4, 0)]), (OpResult 3 0, [(4, 1)])]
     [0] [(0, [1, 2, 3, 4, 5])]"

text \<open>Cluster 0 holds \<open>%1 = A(%arg0)\<close> (tagged, result unused) and its terminator.\<close>

definition unused_result :: ir where
  "unused_result = mk_ir
     [cluster_op, host_op [BlockArgument 0] 1, return_op]
     [(BlockArgument 0, [(1, 0)])]
     [0] [(0, [1, 2])]"

text \<open>
  Cluster 0 holds \<open>%1 = A(%arg0)\<close> (tagged), \<open>B(%1, %arg0)\<close> (untagged) and its
  terminator.
\<close>

definition shared_input :: ir where
  "shared_input = mk_ir
     [cluster_op, host_op [BlockArgument 0] 1, device_op [OpResult 1 0, BlockArgument 0] 0,
      return_op]
     [(BlockArgument 0, [(2, 1), (1, 0)]), (OpResult 1 0, [(2, 0)])]
     [0] [(0, [1, 2, 3])]"

text \<open>
  The module body holds \<open>%1 = A(%arg0)\<close> (tagged) and then cluster 0, which holds
  \<open>%2 = B(%1)\<close> (tagged), \<open>C(%arg0)\<close> (untagged) and its terminator.
\<close>

definition tagged_above :: ir where
  "tagged_above = mk_ir
     [cluster_op, host_op [BlockArgument 0] 1, host_op [OpResult 1 0] 1,
      device_op [BlockArgument 0] 0, return_op]
     [(BlockArgument 0, [(3, 0), (1, 0)]), (OpResult 1 0, [(2, 0)])]
     [1, 0] [(0, [2, 3, 4])]"

definition no_devices :: "ir \<Rightarrow> unit option" where
  "no_devices g = None"

definition some_devices :: "ir \<Rightarrow> unit option" where
  "some_devices g = Some ()"

section \<open>Invariants of the head-set builder\<close>

text \<open>
  \<open>head_inv\<close> relates the operations accepted so far, in acceptance order, to the values
  in \<open>outside_compiled_op_usages\<close>: accepted operations are distinct and tagged, every
  usable value is a boundary input or a result of an accepted operation, and every
  operand of an accepted operation is a boundary input or a result of an operation
  accepted earlier.
\<close>

definition results_of :: "ir \<Rightarrow> op_id set \<Rightarrow> val set" where
  "results_of g S = (\<Union>op\<in>S. set (getOpResults g op))"

definition head_inv :: "ir \<Rightarrow> val list \<Rightarrow> op_id list \<Rightarrow> val list \<Rightarrow> bool" where
  "head_inv g inputs accepted usages \<longleftrightarrow>
     distinct accepted \<and>
     set usages \<subseteq> set inputs \<union> results_of g (set accepted) \<and>
     (\<forall>op\<in>set accepted. HasOutsideCompilationAttribute g op) \<and>
     (\<forall>j<length accepted.
        set (getOperands g (accepted ! j)) \<subseteq> set inputs \<union> results_of g (set (take j accepted)))"

text \<open>While a front is being filled, the accepted operations are those flushed so far
  followed by the new ones of the front.\<close>

definition builder_inv :: "ir \<Rightarrow> val list \<Rightarrow> op_id list \<Rightarrow> op_id list \<times> val list \<Rightarrow> bool" where
  "builder_inv g inputs base st = head_inv g inputs (sv_insert_range (fst st) base) (snd st)"

text \<open>
  A module is finite and acyclic for a cluster when every use met by the traversal is
  owned by an operation of the table and some rank grows strictly from every operation
  to the users of its results.
\<close>

definition finite_acyclic :: "ir \<Rightarrow> op_id \<Rightarrow> (op_id \<Rightarrow> nat) \<Rightarrow> bool" where
  "finite_acyclic g cluster rank \<longleftrightarrow>
     (\<forall>v\<in>set (getUsedValuesDefinedAbove g cluster). \<forall>use\<in>set (use_list g v). fst use < op_count g) \<and>
     (\<forall>p\<in>set [0..<op_count g]. \<forall>user\<in>set (getUsers g p). user < op_count g \<and> rank p < rank user)"

definition front_measure :: "nat \<Rightarrow> (op_id \<Rightarrow> nat) \<Rightarrow> op_id list \<Rightarrow> nat" where
  "front_measure n rank parent =
     (if parent = [] then 0 else Suc (Max (rank ` {..<n}) - Min (rank ` set parent)))"


text \<open>
  What redirecting the uses of the outputs leaves alone: the blocks, the table entries of
  the head-set operations, the number of results of every operation, and the empty use
  lists of the launch results not yet served.
\<close>

definition same_blocks :: "ir \<Rightarrow> ir \<Rightarrow> bool" where
  "same_blocks g g' \<longleftrightarrow>
     module_body g' = module_body g \<and> region_body g' = region_body g \<and> op_count g' = op_count g"

definition untouched :: "op_id list \<Rightarrow> op_id \<Rightarrow> nat \<Rightarrow> ir \<Rightarrow> ir \<Rightarrow> bool" where
  "untouched head launch k g g' \<longleftrightarrow>
     same_blocks g g' \<and>
     (\<forall>op\<in>set head. op_table g' op = op_table g op) \<and>
     (\<forall>op. num_results (op_table g' op) = num_results (op_table g op)) \<and>
     (\<forall>i\<ge>k. use_list g (OpResult launch i) = [] \<longrightarrow> use_list g' (OpResult launch i) = [])"

section \<open>Set vectors\<close>

lemma set_sv_insert [simp]: "set (sv_insert x xs) = insert x (set xs)"
  by (auto simp: sv_insert_def)

lemma distinct_sv_insert [simp]: "distinct (sv_insert x xs) = distinct xs"
  by (auto simp: sv_insert_def)

lemma set_sv_insert_range [simp]: "set (sv_insert_range ys xs) = set ys \<union> set xs"
  unfolding sv_insert_range_def by (induction ys arbitrary: xs) auto

lemma distinct_sv_insert_range [simp]: "distinct (sv_insert_range ys xs) = distinct xs"
  unfolding sv_insert_range_def by (induction ys arbitrary: xs) auto

lemma sv_insert_range_Nil [simp]: "sv_insert_range [] xs = xs"
  by (simp add: sv_insert_range_def)

lemma sv_insert_range_snoc: "sv_insert_range (ys @ [y]) xs = sv_insert y (sv_insert_range ys xs)"
  by (simp add: sv_insert_range_def)

lemma sv_insert_range_sv_insert:
  "sv_insert_range (sv_insert y ys) xs = sv_insert y (sv_insert_range ys xs)"
proof (cases "y \<in> set ys")
  case True
  then show ?thesis by (simp add: sv_insert_def)
next
  case False
  then show ?thesis by (simp add: sv_insert_def[of y ys] sv_insert_range_snoc)
qed

section \<open>Boundary inputs\<close>

lemma set_collect_operands:
  "set (fold (\<lambda>operand values. if P operand then sv_insert operand values else values) xs acc)
     = set acc \<union> {v \<in> set xs. P v}"
  by (induction xs arbitrary: acc) auto

lemma set_getUsedValuesDefinedAbove:
  "set (getUsedValuesDefinedAbove g cluster)
     = {v. defined_above g v \<and> (\<exists>user\<in>set (region_body g cluster). v \<in> set (getOperands g user))}"
proof -
  have "set (fold (\<lambda>op values. fold (\<lambda>operand values.
                if defined_above g operand then sv_insert operand values else values)
              (getOperands g op) values) ops acc)
          = set acc \<union> {v. defined_above g v \<and> (\<exists>user\<in>set ops. v \<in> set (getOperands g user))}"
    for ops acc
    by (induction ops arbitrary: acc) (auto simp: set_collect_operands)
  then show ?thesis by (simp add: getUsedValuesDefinedAbove_def)
qed

lemma distinct_getUsedValuesDefinedAbove: "distinct (getUsedValuesDefinedAbove g cluster)"
proof -
  have inner: "distinct acc \<Longrightarrow> distinct (fold (\<lambda>operand values.
      if P operand then sv_insert operand values else values) xs acc)" for P xs and acc :: "val list"
    by (induction xs arbitrary: acc) auto
  have "distinct acc \<Longrightarrow> distinct (fold (\<lambda>op values. fold (\<lambda>operand values.
                if defined_above g operand then sv_insert operand values else values)
              (getOperands g op) values) ops acc)" for ops acc
    by (induction ops arbitrary: acc) (auto simp: inner)
  then show ?thesis by (simp add: getUsedValuesDefinedAbove_def)
qed

section \<open>The head set is tagged and closed\<close>

lemma results_of_mono: "S \<subseteq> T \<Longrightarrow> results_of g S \<subseteq> results_of g T"
  by (auto simp: results_of_def)

lemma results_of_insert: "results_of g (insert op S) = set (getOpResults g op) \<union> results_of g S"
  by (auto simp: results_of_def)

lemma head_inv_accept:
  assumes inv: "head_inv g inputs accepted usages"
    and tag: "HasOutsideCompilationAttribute g op"
    and opnds: "set (getOperands g op) \<subseteq> set usages"
  shows "head_inv g inputs (sv_insert op accepted) (sv_insert_range (getOpResults g op) usages)"
proof (cases "op \<in> set accepted")
  case True
  then have "sv_insert op accepted = accepted" by (simp add: sv_insert_def)
  moreover have "set (getOpResults g op) \<subseteq> results_of g (set accepted)"
    using True by (auto simp: results_of_def)
  ultimately show ?thesis using inv by (auto simp: head_inv_def)
next
  case False
  then have eq: "sv_insert op accepted = accepted @ [op]" by (simp add: sv_insert_def)
  have d: "distinct (accepted @ [op])" using inv False by (simp add: head_inv_def)
  have u: "set (sv_insert_range (getOpResults g op) usages)
             \<subseteq> set inputs \<union> results_of g (set (accepted @ [op]))"
    using inv by (auto simp: head_inv_def results_of_def)
  have t: "\<forall>x\<in>set (accepted @ [op]). HasOutsideCompilationAttribute g x"
    using inv tag by (auto simp: head_inv_def)
  have o: "set (getOperands g ((accepted @ [op]) ! j))
             \<subseteq> set inputs \<union> results_of g (set (take j (accepted @ [op])))"
    if "j < length (accepted @ [op])" for j
  proof (cases "j < length accepted")
    case True
    then show ?thesis using inv by (simp add: head_inv_def nth_append)
  next
    case False
    with that have "j = length accepted" by simp
    then show ?thesis using opnds inv by (auto simp: head_inv_def)
  qed
  show ?thesis unfolding eq head_inv_def using d u t o by blast
qed

lemma builder_inv_record:
  assumes "builder_inv g inputs base st"
  shows "builder_inv g inputs base (RecordOutsideCompiledOpsAndUsages g op st)"
proof (cases st)
  case (Pair t u)
  show ?thesis
  proof (cases "HasOutsideCompilationAttribute g op \<and> OpContainsOperandsFromSet g op u")
    case True
    then have "set (getOperands g op) \<subseteq> set u"
      by (auto simp: OpContainsOperandsFromSet_def list_all_iff)
    with assms True Pair show ?thesis
      by (simp add: builder_inv_def RecordOutsideCompiledOpsAndUsages_def
          sv_insert_range_sv_insert head_inv_accept)
  next
    case False
    with assms Pair show ?thesis
      by (auto simp: RecordOutsideCompiledOpsAndUsages_def)
  qed
qed

lemma fold_preserves:
  "(\<And>x s. P s \<Longrightarrow> P (f x s)) \<Longrightarrow> P s \<Longrightarrow> P (fold f xs s)"
  by (induction xs arbitrary: s) auto

lemma builder_inv_record_uses:
  "builder_inv g inputs base st \<Longrightarrow> builder_inv g inputs base (record_uses g v st)"
  unfolding record_uses_def by (rule fold_preserves) (rule builder_inv_record)

lemma builder_inv_record_connected:
  "builder_inv g inputs base st \<Longrightarrow> builder_inv g inputs base (record_connected g parent st)"
  unfolding record_connected_def
  by (rule fold_preserves, rule fold_preserves, rule builder_inv_record_uses)

lemma head_inv_traverse:
  assumes run: "traverse_connected g parent usages accepted = Some res"
    and inv: "head_inv g inputs (sv_insert_range parent accepted) usages"
  shows "head_inv g inputs (snd res) (fst res)"
proof -
  have "head_inv g inputs (sv_insert_range parent accepted) usages
          \<longrightarrow> head_inv g inputs (snd res) (fst res)"
  proof (rule traverse_connected.raw_induct
      [where P = "\<lambda>g parent usages accepted res.
          head_inv g inputs (sv_insert_range parent accepted) usages
            \<longrightarrow> head_inv g inputs (snd res) (fst res)", OF _ run])
    fix tc g parent usages accepted res
    assume IH: "\<And>g parent usages accepted res.
        tc g parent usages accepted = Some res \<Longrightarrow>
        head_inv g inputs (sv_insert_range parent accepted) usages
          \<longrightarrow> head_inv g inputs (snd res) (fst res)"
      and eq: "(if parent = [] then Some (usages, accepted)
                else case record_connected g parent ([], usages) of
                  (connected, usages') \<Rightarrow>
                    tc g connected usages' (sv_insert_range parent accepted)) = Some res"
    show "head_inv g inputs (sv_insert_range parent accepted) usages
            \<longrightarrow> head_inv g inputs (snd res) (fst res)"
    proof
      assume h: "head_inv g inputs (sv_insert_range parent accepted) usages"
      show "head_inv g inputs (snd res) (fst res)"
      proof (cases "parent = []")
        case True
        with eq h show ?thesis by auto
      next
        case False
        obtain connected usages'
          where rc: "record_connected g parent ([], usages) = (connected, usages')"
          by (cases "record_connected g parent ([], usages)")
        have "builder_inv g inputs (sv_insert_range parent accepted) ([], usages)"
          using h by (simp add: builder_inv_def)
        then have "builder_inv g inputs (sv_insert_range parent accepted) (connected, usages')"
          using builder_inv_record_connected[of g inputs _ "([], usages)" parent] rc by simp
        then have "head_inv g inputs
            (sv_insert_range connected (sv_insert_range parent accepted)) usages'"
          by (simp add: builder_inv_def)
        moreover have "tc g connected usages' (sv_insert_range parent accepted) = Some res"
          using eq False rc by simp
        ultimately show ?thesis using IH by blast
      qed
    qed
  qed
  with inv show ?thesis by blast
qed

lemma head_inv_extract:
  assumes "ExtractOutsideCompiledOpsConnectedToHead g v st = Some st'"
    and "head_inv g inputs (snd st) (fst st)"
  shows "head_inv g inputs (snd st') (fst st')"
proof -
  obtain usages accepted where st: "st = (usages, accepted)" by (cases st)
  obtain parent usages' where ru: "record_uses g v ([], usages) = (parent, usages')"
    by (cases "record_uses g v ([], usages)")
  have "builder_inv g inputs accepted ([], usages)"
    using assms(2) st by (simp add: builder_inv_def)
  then have "builder_inv g inputs accepted (parent, usages')"
    using builder_inv_record_uses[of g inputs accepted "([], usages)" v] ru by simp
  then have "head_inv g inputs (sv_insert_range parent accepted) usages'"
    by (simp add: builder_inv_def)
  moreover have "traverse_connected g parent usages' accepted = Some st'"
    using assms(1) st ru by (simp add: ExtractOutsideCompiledOpsConnectedToHead_def)
  ultimately show ?thesis by (rule head_inv_traverse[rotated])
qed

lemma head_inv_extract_inputs:
  "extract_inputs g vs st = Some st' \<Longrightarrow> head_inv g inputs (snd st) (fst st)
     \<Longrightarrow> head_inv g inputs (snd st') (fst st')"
proof (induction vs arbitrary: st)
  case Nil
  then show ?case by simp
next
  case (Cons v vs)
  then show ?case
    by (auto split: option.splits dest: head_inv_extract)
qed

lemma head_inv_identify:
  assumes "IdentifyOutsideCompiledOpsAtHead g cluster = Some head"
  shows "\<exists>usages. head_inv g (getUsedValuesDefinedAbove g cluster) head usages"
proof -
  let ?vs = "getUsedValuesDefinedAbove g cluster"
  from assms obtain st' where e: "extract_inputs g ?vs (?vs, []) = Some st'" and h: "head = snd st'"
    by (auto simp: IdentifyOutsideCompiledOpsAtHead_def Let_def)
  have "head_inv g ?vs (snd (?vs, [])) (fst (?vs, []))"
    by (simp add: head_inv_def results_of_def)
  from head_inv_extract_inputs[OF e this] h show ?thesis by blast
qed

text \<open>
  Claim C4. Every operation of the computed head set carries the
  \<^verbatim>\<open>_xla_outside_compilation\<close> string attribute: an operation without it is never in a
  head set, whatever its operands.
\<close>

theorem head_set_tagged:
  "IdentifyOutsideCompiledOpsAtHead g cluster = Some head \<Longrightarrow> op \<in> set head
     \<Longrightarrow> HasOutsideCompilationAttribute g op"
  using head_inv_identify[of g cluster head] by (auto simp: head_inv_def)

theorem head_set_tagged_witness:
  "IdentifyOutsideCompiledOpsAtHead interleaved 0 = Some [1, 3, 2] \<and> 3 \<in> set [1, 3, 2 :: nat] \<and>
   HasOutsideCompilationAttribute interleaved 3"
proof -
  have h1: "IdentifyOutsideCompiledOpsAtHead interleaved 0 = Some [1, 3, 2]" by code_simp
  have h2: "3 \<in> set [1, 3, 2 :: nat]" by simp
  from head_set_tagged[OF h1 h2] h1 h2 show ?thesis by simp
qed

text \<open>
  Claim C3. Every operand of every operation of the computed head set is a boundary input
  of the region (a value defined above the region and used by an operation of its body)
  or a result of another operation of the head set.
\<close>

theorem head_set_closed:
  assumes "IdentifyOutsideCompiledOpsAtHead g cluster = Some head"
    and "op \<in> set head" and "v \<in> set (getOperands g op)"
  shows "(defined_above g v \<and> (\<exists>user\<in>set (region_body g cluster). v \<in> set (getOperands g user))) \<or>
         (\<exists>p\<in>set head. p \<noteq> op \<and> v \<in> set (getOpResults g p))"
proof -
  from head_inv_identify[OF assms(1)] obtain usages
    where inv: "head_inv g (getUsedValuesDefinedAbove g cluster) head usages" ..
  from assms(2) obtain j where j: "j < length head" "head ! j = op"
    by (auto simp: in_set_conv_nth)
  with inv assms(3) have "v \<in> set (getUsedValuesDefinedAbove g cluster) \<union> results_of g (set (take j head))"
    by (auto simp: head_inv_def)
  moreover have "op \<notin> set (take j head)"
  proof -
    have "distinct head" using inv by (simp add: head_inv_def)
    then have "distinct (take j head @ drop j head)" by simp
    moreover have "op \<in> set (drop j head)" using j by (metis Cons_nth_drop_Suc list.set_intros(1))
    ultimately show ?thesis using distinct_append[of "take j head" "drop j head"] by blast
  qed
  moreover have "set (take j head) \<subseteq> set head" by (rule set_take_subset)
  ultimately show ?thesis by (auto simp: results_of_def set_getUsedValuesDefinedAbove)
qed

theorem head_set_closed_witness:
  "IdentifyOutsideCompiledOpsAtHead interleaved 0 = Some [1, 3, 2] \<and> 3 \<in> set [1, 3, 2 :: nat] \<and>
   OpResult 1 0 \<in> set (getOperands interleaved 3) \<and>
   \<not> defined_above interleaved (OpResult 1 0) \<and>
   OpResult 1 0 \<in> set (getOpResults interleaved 1)"
proof -
  have h1: "IdentifyOutsideCompiledOpsAtHead interleaved 0 = Some [1, 3, 2]" by code_simp
  have h2: "3 \<in> set [1, 3, 2 :: nat]" by simp
  have h3: "OpResult 1 0 \<in> set (getOperands interleaved 3)" by code_simp
  have n: "\<not> defined_above interleaved (OpResult 1 0)" by code_simp
  have r: "getOpResults interleaved 1 = [OpResult 1 0]"
    "getOpResults interleaved 3 = [OpResult 3 0]" "getOpResults interleaved 2 = [OpResult 2 0]"
    by code_simp+
  from head_set_closed[OF h1 h2 h3] n have "\<exists>p\<in>set [1, 3, 2]. p \<noteq> 3 \<and> OpResult 1 0 \<in> set (getOpResults interleaved p)"
    by blast
  with h1 h2 h3 n r show ?thesis by (simp del: One_nat_def)
qed

section \<open>Termination of the head-set builder\<close>

lemma record_ops_subset:
  "set (fst (RecordOutsideCompiledOpsAndUsages g op st)) \<subseteq> insert op (set (fst st))"
  by (cases st) (auto simp: RecordOutsideCompiledOpsAndUsages_def)

lemma record_uses_ops_subset:
  "set (fst (record_uses g v st)) \<subseteq> set (fst st) \<union> fst ` set (use_list g v)"
proof -
  have "set (fst (fold (\<lambda>use. RecordOutsideCompiledOpsAndUsages g (fst use)) us st))
          \<subseteq> set (fst st) \<union> fst ` set us" for us
  proof (induction us arbitrary: st)
    case Nil
    then show ?case by simp
  next
    case (Cons u us)
    show ?case
      using Cons.IH[of "RecordOutsideCompiledOpsAndUsages g (fst u) st"]
        record_ops_subset[of g "fst u" st]
      by auto
  qed
  then show ?thesis by (simp add: record_uses_def)
qed

lemma fold_record_uses_ops_subset:
  "set (fst (fold (record_uses g) rs st)) \<subseteq> set (fst st) \<union> (\<Union>r\<in>set rs. fst ` set (use_list g r))"
proof (induction rs arbitrary: st)
  case Nil
  then show ?case by simp
next
  case (Cons r rs)
  show ?case
    using Cons.IH[of "record_uses g r st"] record_uses_ops_subset[of g r st]
    by auto
qed

lemma set_getUsers: "set (getUsers g p) = (\<Union>r\<in>set (getOpResults g p). fst ` set (use_list g r))"
  by (auto simp: getUsers_def)

lemma record_connected_ops_subset:
  "set (fst (record_connected g parent st)) \<subseteq> set (fst st) \<union> (\<Union>p\<in>set parent. set (getUsers g p))"
proof -
  have "set (fst (fold (\<lambda>p. fold (record_uses g) (getOpResults g p)) ps st))
          \<subseteq> set (fst st) \<union> (\<Union>p\<in>set ps. set (getUsers g p))" for ps
  proof (induction ps arbitrary: st)
    case Nil
    then show ?case by simp
  next
    case (Cons p ps)
    show ?case
      using Cons.IH[of "fold (record_uses g) (getOpResults g p) st"]
        fold_record_uses_ops_subset[of g "getOpResults g p" st]
      by (auto simp: set_getUsers)
  qed
  then show ?thesis by (simp add: record_connected_def)
qed

lemma traverse_connected_terminates:
  fixes rank :: "op_id \<Rightarrow> nat"
  assumes acyc: "\<forall>p\<in>set [0..<n]. \<forall>user\<in>set (getUsers g p). user < n \<and> rank p < rank user"
    and par: "set parent \<subseteq> {..<n}"
  shows "\<exists>res. traverse_connected g parent usages accepted = Some res"
  using par
proof (induction "front_measure n rank parent" arbitrary: parent usages accepted rule: less_induct)
  case less
  show ?case
  proof (cases "parent = []")
    case True
    then show ?thesis by (simp add: traverse_connected.simps)
  next
    case False
    obtain connected usages'
      where rc: "record_connected g parent ([], usages) = (connected, usages')"
      by (cases "record_connected g parent ([], usages)")
    have sub: "set connected \<subseteq> (\<Union>p\<in>set parent. set (getUsers g p))"
      using record_connected_ops_subset[of g parent "([], usages)"] rc by simp
    have conn_lt: "set connected \<subseteq> {..<n}"
      using sub acyc less.prems by fastforce
    have "front_measure n rank connected < front_measure n rank parent"
    proof (cases "connected = []")
      case True
      with False show ?thesis by (simp add: front_measure_def)
    next
      case cne: False
      let ?lo = "Min (rank ` set parent)" and ?lo' = "Min (rank ` set connected)"
      have "?lo < rank c" if "c \<in> set connected" for c
      proof -
        from that sub obtain p where p: "p \<in> set parent" "c \<in> set (getUsers g p)" by blast
        with acyc less.prems have "rank p < rank c" by fastforce
        moreover have "?lo \<le> rank p" using p(1) by simp
        ultimately show ?thesis by simp
      qed
      then have 1: "?lo < ?lo'" using cne by simp
      obtain c where c: "c \<in> set connected" using cne by (cases connected) auto
      then have "c < n" using conn_lt by auto
      then have "rank c \<le> Max (rank ` {..<n})" by simp
      moreover have "?lo' \<le> rank c" using c by simp
      ultimately have 2: "?lo' \<le> Max (rank ` {..<n})" by simp
      from 1 2 have "Max (rank ` {..<n}) - ?lo' < Max (rank ` {..<n}) - ?lo" by arith
      with False cne show ?thesis by (simp only: front_measure_def if_False Suc_less_eq)
    qed
    from less.hyps[OF this conn_lt]
    obtain res where "traverse_connected g connected usages'
        (sv_insert_range parent accepted) = Some res" by blast
    then show ?thesis
      using False rc by (subst traverse_connected.simps) simp
  qed
qed

lemma extract_terminates:
  fixes rank :: "op_id \<Rightarrow> nat"
  assumes acyc: "\<forall>p\<in>set [0..<n]. \<forall>user\<in>set (getUsers g p). user < n \<and> rank p < rank user"
    and own: "\<forall>use\<in>set (use_list g v). fst use < n"
  shows "\<exists>st'. ExtractOutsideCompiledOpsConnectedToHead g v st = Some st'"
proof -
  obtain usages accepted where st: "st = (usages, accepted)" by (cases st)
  obtain parent usages' where ru: "record_uses g v ([], usages) = (parent, usages')"
    by (cases "record_uses g v ([], usages)")
  have "set parent \<subseteq> {..<n}"
    using record_uses_ops_subset[of g v "([], usages)"] ru own by auto
  from traverse_connected_terminates[OF acyc this, of usages' accepted]
  show ?thesis using st ru by (simp add: ExtractOutsideCompiledOpsConnectedToHead_def)
qed

lemma extract_inputs_terminates:
  fixes rank :: "op_id \<Rightarrow> nat"
  assumes acyc: "\<forall>p\<in>set [0..<n]. \<forall>user\<in>set (getUsers g p). user < n \<and> rank p < rank user"
    and own: "\<forall>v\<in>set vs. \<forall>use\<in>set (use_list g v). fst use < n"
  shows "\<exists>st'. extract_inputs g vs st = Some st'"
  using own
proof (induction vs arbitrary: st)
  case Nil
  then show ?case by simp
next
  case (Cons v vs)
  from extract_terminates[OF acyc, of v st] Cons.prems
  obtain st1 where "ExtractOutsideCompiledOpsConnectedToHead g v st = Some st1" by auto
  moreover from Cons.IH[of st1] Cons.prems
  obtain st2 where "extract_inputs g vs st1 = Some st2" by auto
  ultimately show ?case by simp
qed

text \<open>
  Claim C9. On a finite, acyclic module the worklist loops of the head-set builder end:
  \<^verbatim>\<open>IdentifyOutsideCompiledOpsAtHead\<close> returns a head set for the cluster.
\<close>

theorem head_set_builder_terminates:
  assumes "finite_acyclic g cluster rank"
  shows "\<exists>head. IdentifyOutsideCompiledOpsAtHead g cluster = Some head"
proof -
  from assms have acyc: "\<forall>p\<in>set [0..<op_count g]. \<forall>user\<in>set (getUsers g p).
      user < op_count g \<and> rank p < rank user"
    and own: "\<forall>v\<in>set (getUsedValuesDefinedAbove g cluster). \<forall>use\<in>set (use_list g v).
      fst use < op_count g"
    by (simp_all add: finite_acyclic_def)
  from extract_inputs_terminates[OF acyc own]
  obtain st' where "extract_inputs g (getUsedValuesDefinedAbove g cluster)
      (getUsedValuesDefinedAbove g cluster, []) = Some st'" by blast
  then show ?thesis by (simp add: IdentifyOutsideCompiledOpsAtHead_def Let_def)
qed


theorem head_set_builder_terminates_witness:
  "finite_acyclic interleaved 0 (\<lambda>op. op) \<and>
   IdentifyOutsideCompiledOpsAtHead interleaved 0 = Some [1, 3, 2]"
proof -
  have h: "finite_acyclic interleaved 0 (\<lambda>op. op)" by code_simp
  have e: "IdentifyOutsideCompiledOpsAtHead interleaved 0 = Some [1, 3, 2]" by code_simp
  from head_set_builder_terminates[OF h] h e show ?thesis by simp
qed

section \<open>The output list\<close>

lemma has_outside_user_iff:
  "has_outside_user g head op \<longleftrightarrow>
     (\<exists>r\<in>set (getOpResults g op). \<exists>use\<in>set (use_list g r). fst use \<notin> set head)"
  by (auto simp: has_outside_user_def list_ex_iff getUsers_def)

lemma getOpResults_disjoint:
  "p \<noteq> q \<Longrightarrow> set (getOpResults g p) \<inter> set (getOpResults g q) = {}"
  by (auto simp: getOpResults_def)

text \<open>
  Claim C5. A head-set operation with a result that has a use owned by an operation
  outside the head set contributes all its results to the output list, as one block in
  result order; a head-set operation whose results are used only inside the head set
  contributes none of its results.
\<close>

theorem outputs_complete:
  assumes "op \<in> set head"
  shows "if \<exists>r\<in>set (getOpResults g op). \<exists>use\<in>set (use_list g r). fst use \<notin> set head
         then \<exists>before after. GetHeadExtractedClusterOutputs g head
                 = before @ getOpResults g op @ after
         else set (getOpResults g op) \<inter> set (GetHeadExtractedClusterOutputs g head) = {}"
proof (cases "has_outside_user g head op")
  case True
  from assms obtain xs ys where "head = xs @ op # ys" by (auto dest: split_list)
  with True have "\<exists>before after. GetHeadExtractedClusterOutputs g head
      = before @ getOpResults g op @ after"
    unfolding GetHeadExtractedClusterOutputs_def by auto
  with True show ?thesis by (simp add: has_outside_user_iff)
next
  case False
  have "v \<notin> set (GetHeadExtractedClusterOutputs g head)" if v: "v \<in> set (getOpResults g op)" for v
  proof
    assume "v \<in> set (GetHeadExtractedClusterOutputs g head)"
    then obtain q where q: "q \<in> set head" "has_outside_user g head q" "v \<in> set (getOpResults g q)"
      unfolding GetHeadExtractedClusterOutputs_def by (auto split: if_splits)
    with False have "q \<noteq> op" by auto
    with getOpResults_disjoint[of q op g] q(3) v show False by auto
  qed
  then have "set (getOpResults g op) \<inter> set (GetHeadExtractedClusterOutputs g head) = {}"
    by auto
  with False show ?thesis by (simp add: has_outside_user_iff)
qed

theorem outputs_complete_witness:
  "3 \<in> set [1, 3, 2 :: nat] \<and> (3, 0) \<in> set (use_list interleaved (OpResult 1 0)) \<and>
   (4, 1) \<in> set (use_list interleaved (OpResult 3 0)) \<and>
   getOpResults interleaved 3 = [OpResult 3 0] \<and>
   GetHeadExtractedClusterOutputs interleaved [1, 3, 2] = [OpResult 3 0, OpResult 2 0] \<and>
   set (getOpResults interleaved 1) \<inter> set (GetHeadExtractedClusterOutputs interleaved [1, 3, 2]) = {}"
proof -
  have m1: "1 \<in> set [1, 3, 2 :: nat]" and m3: "3 \<in> set [1, 3, 2 :: nat]" by simp_all
  have u1: "use_list interleaved (OpResult 1 0) = [(3, 0)]"
    and u3: "use_list interleaved (OpResult 3 0) = [(4, 1)]"
    and r1: "getOpResults interleaved 1 = [OpResult 1 0]"
    and r3: "getOpResults interleaved 3 = [OpResult 3 0]"
    and out: "GetHeadExtractedClusterOutputs interleaved [1, 3, 2] = [OpResult 3 0, OpResult 2 0]"
    by code_simp+
  have "set (getOpResults interleaved 1) \<inter> set (GetHeadExtractedClusterOutputs interleaved [1, 3, 2]) = {}"
    using outputs_complete[OF m1, of interleaved] by (simp add: r1 u1 del: One_nat_def)
  moreover have "\<exists>before after. GetHeadExtractedClusterOutputs interleaved [1, 3, 2]
      = before @ getOpResults interleaved 3 @ after"
    using outputs_complete[OF m3, of interleaved] by (simp add: r3 u3 del: One_nat_def)
  ultimately show ?thesis using m3 u1 u3 r3 out by simp
qed

section \<open>Failure of the device lookup\<close>

text \<open>
  Claim C7. When \<^verbatim>\<open>GetDevicesFromOp\<close> fails, the pass signals failure and returns the
  module as it was: no cluster is visited.
\<close>

theorem metadata_failure_aborts:
  "GetDevicesFromOp g = None \<Longrightarrow> runOnOperation GetDevicesFromOp g = Some (PassFailure, g)"
  by (simp add: runOnOperation_def)

theorem metadata_failure_aborts_witness:
  "no_devices two_users = None \<and> runOnOperation no_devices two_users = Some (PassFailure, two_users)"
proof -
  have h: "no_devices two_users = None" by (simp add: no_devices_def)
  from metadata_failure_aborts[of no_devices two_users] h show ?thesis by simp
qed


section \<open>The region mutator: frame and shape\<close>

lemma use_set_fields [simp]:
  "module_body (use_set use old v g) = module_body g"
  "region_body (use_set use old v g) = region_body g"
  "op_count (use_set use old v g) = op_count g"
  by (simp_all add: use_set_def link_operand_def store_operand_def unlink_operand_def Let_def)

lemma use_set_op_table:
  "op \<noteq> fst use \<Longrightarrow> op_table (use_set use old v g) op = op_table g op"
  by (simp add: use_set_def link_operand_def store_operand_def unlink_operand_def Let_def)

lemma use_set_num_results:
  "num_results (op_table (use_set use old v g) op) = num_results (op_table g op)"
  by (simp add: use_set_def link_operand_def store_operand_def unlink_operand_def Let_def)

lemma use_set_use_list_empty:
  "w \<noteq> v \<Longrightarrow> use_list g w = [] \<Longrightarrow> use_list (use_set use old v g) w = []"
  by (auto simp: use_set_def link_operand_def store_operand_def unlink_operand_def Let_def)

lemma unlink_use_list_empty:
  "use_list g w = [] \<Longrightarrow> use_list (unlink_operand use old g) w = []"
  by (auto simp: unlink_operand_def)

text \<open>With a new value that has no use yet, the loop ends at the first use it redirects.\<close>

lemma replace_uses_fresh:
  assumes "use_list g new_value = []"
  shows "replace_uses head new_value current chain g =
           Some (case find (\<lambda>use. fst use \<notin> set head) chain of
                   None \<Rightarrow> g
                 | Some use \<Rightarrow> use_set use current new_value g)"
proof (induction chain)
  case Nil
  then show ?case by (simp add: replace_uses.simps)
next
  case (Cons use rest)
  show ?case
  proof (cases "fst use \<in> set head")
    case True
    with Cons show ?thesis by (subst replace_uses.simps) simp
  next
    case False
    have "use_list (unlink_operand use current g) new_value = []"
      using assms by (rule unlink_use_list_empty)
    with False show ?thesis
      by (subst replace_uses.simps) (simp add: replace_uses.simps[of head new_value new_value "[]"])
  qed
qed

lemma untouched_refl: "untouched head launch k g g"
  by (simp add: untouched_def same_blocks_def)

lemma replace_uses_untouched:
  assumes "use_list g (OpResult launch k) = []"
  shows "\<exists>g'. replace_uses head (OpResult launch k) current chain g = Some g' \<and>
              untouched head launch (Suc k) g g'"
proof (cases "find (\<lambda>use. fst use \<notin> set head) chain")
  case None
  then show ?thesis
    using replace_uses_fresh[OF assms(1), of head current chain]
    by (simp add: untouched_refl)
next
  case (Some use)
  then have nh: "fst use \<notin> set head"
    by (auto simp: find_Some_iff)
  then have "\<forall>op\<in>set head. op_table (use_set use current (OpResult launch k) g) op = op_table g op"
    by (auto intro: use_set_op_table)
  then have "untouched head launch (Suc k) g (use_set use current (OpResult launch k) g)"
    by (simp add: untouched_def same_blocks_def use_set_num_results use_set_use_list_empty)
  with Some show ?thesis
    using replace_uses_fresh[OF assms(1), of head current chain] by simp
qed

lemma replace_outputs_untouched:
  assumes "\<forall>i\<ge>k. use_list g (OpResult launch i) = []"
  shows "\<exists>g'. replace_outputs head launch (enumerate k outs) g = Some g' \<and>
              untouched head launch (k + length outs) g g'"
  using assms
proof (induction outs arbitrary: k g)
  case Nil
  then show ?case by (simp add: untouched_refl)
next
  case (Cons out outs)
  from Cons.prems have "use_list g (OpResult launch k) = []" by simp
  from replace_uses_untouched[OF this, of head out "use_list g out"]
  obtain g1 where r1: "replace_uses head (OpResult launch k) out (use_list g out) g = Some g1"
    and u1: "untouched head launch (Suc k) g g1" by blast
  have "\<forall>i\<ge>Suc k. use_list g1 (OpResult launch i) = []"
    using u1 Cons.prems by (simp add: untouched_def)
  from Cons.IH[OF this]
  obtain g2 where r2: "replace_outputs head launch (enumerate (Suc k) outs) g1 = Some g2"
    and u2: "untouched head launch (Suc k + length outs) g1 g2" by blast
  have "untouched head launch (k + length (out # outs)) g g2"
    using u1 u2 by (auto simp: untouched_def same_blocks_def)
  with r1 r2 show ?case by simp
qed

lemma fold_link_operand_fields [simp]:
  "module_body (fold (\<lambda>(i, v). link_operand (t, i) v) xs g) = module_body g"
  "region_body (fold (\<lambda>(i, v). link_operand (t, i) v) xs g) = region_body g"
  "op_count (fold (\<lambda>(i, v). link_operand (t, i) v) xs g) = op_count g"
  "op_table (fold (\<lambda>(i, v). link_operand (t, i) v) xs g) = op_table g"
  by (induction xs arbitrary: g; simp add: link_operand_def split: prod.splits)+

lemma insert_before_last:
  assumes "t \<notin> set pre"
  shows "insert_before t x (pre @ [t]) = pre @ [x, t]"
proof -
  have "takeWhile (\<lambda>z. z \<noteq> t) (pre @ [t]) = pre"
    using assms by (induction pre) auto
  moreover have "dropWhile (\<lambda>z. z \<noteq> t) (pre @ [t]) = [t]"
    using assms by (induction pre) auto
  ultimately show ?thesis by (simp add: insert_before_def)
qed

lemma insert_before_absent: "t \<notin> set xs \<Longrightarrow> insert_before t x xs = xs"
  by (simp add: insert_before_def)

lemma fold_moveBefore_fields [simp]:
  "op_table (fold (moveBefore t) ops g) = op_table g"
  "op_count (fold (moveBefore t) ops g) = op_count g"
  "use_list (fold (moveBefore t) ops g) = use_list g"
  by (induction ops arbitrary: g; simp add: moveBefore_def)+

lemma fold_moveBefore_target:
  assumes "region_body g launch = pre @ [t]" and "t \<notin> set pre" and "t \<notin> set ops"
    and "distinct ops" and "set pre \<inter> set ops = {}"
  shows "region_body (fold (moveBefore t) ops g) launch = pre @ ops @ [t]"
  using assms
proof (induction ops arbitrary: g pre)
  case Nil
  then show ?case by simp
next
  case (Cons x xs)
  have "removeAll x (pre @ [t]) = pre @ [t]"
    using Cons.prems by (auto simp: removeAll_id)
  then have step: "region_body (moveBefore t x g) launch = (pre @ [x]) @ [t]"
    using Cons.prems by (simp add: moveBefore_def insert_before_last)
  have "region_body (fold (moveBefore t) xs (moveBefore t x g)) launch = (pre @ [x]) @ xs @ [t]"
    using Cons.prems by (intro Cons.IH[OF step]) auto
  then show ?case by simp
qed

lemma fold_moveBefore_other:
  assumes "t \<notin> set (region_body g r)"
  shows "region_body (fold (moveBefore t) ops g) r = filter (\<lambda>op. op \<notin> set ops) (region_body g r)"
  using assms
proof (induction ops arbitrary: g)
  case Nil
  then show ?case by simp
next
  case (Cons x xs)
  have step: "region_body (moveBefore t x g) r = removeAll x (region_body g r)"
    using Cons.prems by (simp add: moveBefore_def insert_before_absent)
  then have "t \<notin> set (region_body (moveBefore t x g) r)" using Cons.prems by simp
  from Cons.IH[OF this] step show ?case
    by (simp add: removeAll_filter_not_eq conj_commute) (metis)
qed

lemma isolate_shape:
  assumes ne: "head \<noteq> []" and dist: "distinct head" and fresh: "Suc (op_count g) \<notin> set head"
  shows "\<exists>g'. IsolateHeadExtractedOpsToLaunchOp g cluster head = Some (g', Some (op_count g)) \<and>
              region_body g' (op_count g) = head @ [Suc (op_count g)] \<and>
              (\<forall>op\<in>set head. op \<noteq> op_count g \<longrightarrow> op_table g' op = op_table g op) \<and>
              num_results (op_table g' (op_count g))
                = length (GetHeadExtractedClusterOutputs g head) \<and>
              (\<forall>r. r \<noteq> op_count g \<longrightarrow> Suc (op_count g) \<notin> set (region_body g r) \<longrightarrow>
                 region_body g' r = filter (\<lambda>op. op \<notin> set head) (region_body g r))"
proof -
  let ?outs = "GetHeadExtractedClusterOutputs g head"
  let ?l = "op_count g"
  let ?t = "Suc (op_count g)"
  obtain g1 where cl: "create_launch g cluster (length ?outs) = (g1, ?l)"
    by (simp add: create_launch_def Let_def)
  have g1: "op_count g1 = ?t" "region_body g1 = region_body g"
    "\<forall>i. use_list g1 (OpResult ?l i) = []"
    "\<forall>op. op \<noteq> ?l \<longrightarrow> op_table g1 op = op_table g op"
    "num_results (op_table g1 ?l) = length ?outs"
    using cl by (auto simp: create_launch_def Let_def fresh_results_unused_def)
  from replace_outputs_untouched[of 0 g1 ?l head ?outs] g1(3)
  obtain g2 where ro: "replace_outputs head ?l (enumerate 0 ?outs) g1 = Some g2"
    and u: "untouched head ?l (0 + length ?outs) g1 g2" by auto
  have g2: "op_count g2 = ?t" "region_body g2 = region_body g"
    "\<forall>op\<in>set head. op \<noteq> ?l \<longrightarrow> op_table g2 op = op_table g op"
    "num_results (op_table g2 ?l) = length ?outs"
    using u g1 by (auto simp: untouched_def same_blocks_def)
  obtain g3 where cr: "create_return (push_back_block ?l g2) ?l ?outs = (g3, ?t)"
    using g2(1) by (simp add: create_return_def push_back_block_def Let_def)
  have g3: "region_body g3 = (region_body g)(?l := [?t])"
    "\<forall>op. op \<noteq> ?t \<longrightarrow> op_table g3 op = op_table g2 op"
    using cr g2(1,2) by (auto simp: create_return_def push_back_block_def Let_def)
  let ?g' = "fold (moveBefore ?t) head g3"
  have res: "IsolateHeadExtractedOpsToLaunchOp g cluster head = Some (?g', Some ?l)"
    using ne cl ro cr by (simp add: IsolateHeadExtractedOpsToLaunchOp_def Let_def)
  have "region_body g3 ?l = [] @ [?t]" using g3(1) by simp
  from fold_moveBefore_target[OF this _ fresh dist]
  have b: "region_body ?g' ?l = head @ [?t]" by simp
  have t: "\<forall>op\<in>set head. op \<noteq> ?l \<longrightarrow> op_table ?g' op = op_table g op"
  proof (intro ballI impI)
    fix op assume op: "op \<in> set head" "op \<noteq> ?l"
    with fresh have "op \<noteq> ?t" by auto
    with g3(2) have "op_table g3 op = op_table g2 op" by simp
    with g2(3) op show "op_table ?g' op = op_table g op" by simp
  qed
  have n: "num_results (op_table ?g' ?l) = length ?outs"
    using g3(2) g2(4) by simp
  have o: "region_body ?g' r = filter (\<lambda>op. op \<notin> set head) (region_body g r)"
    if "r \<noteq> ?l" "?t \<notin> set (region_body g r)" for r
  proof -
    have "?t \<notin> set (region_body g3 r)" using that g3(1) by simp
    from fold_moveBefore_other[OF this, of head] that g3(1) show ?thesis by simp
  qed
  from res b t n o show ?thesis by blast
qed


section \<open>The host region\<close>

lemma head_distinct:
  "IdentifyOutsideCompiledOpsAtHead g cluster = Some head \<Longrightarrow> distinct head"
  using head_inv_identify[of g cluster head] by (auto simp: head_inv_def)

text \<open>
  Claim C2 says that the operations moved into the host region keep the relative order
  they had in the device region. In \<open>interleaved\<close> the body has \<open>B\<close> (2) before
  \<open>C\<close> (3), the head set is built as \<open>[1, 3, 2]\<close>, and the launch body has 3 before 2.
\<close>

theorem order_counterexample:
  "IdentifyOutsideCompiledOpsAtHead interleaved 0 = Some [1, 3, 2] \<and>
   region_body interleaved 0 = [1, 2, 3, 4, 5] \<and>
   precedes 2 3 (region_body interleaved 0) \<and>
   created_launch (IsolateHeadExtractedOpsToLaunchOp interleaved 0 [1, 3, 2]) = Some 6 \<and>
   body_after (IsolateHeadExtractedOpsToLaunchOp interleaved 0 [1, 3, 2]) 6 = [1, 3, 2, 7] \<and>
   precedes 3 2 (body_after (IsolateHeadExtractedOpsToLaunchOp interleaved 0 [1, 3, 2]) 6) \<and>
   \<not> precedes 2 3 (body_after (IsolateHeadExtractedOpsToLaunchOp interleaved 0 [1, 3, 2]) 6)"
  by code_simp

text \<open>
  Claim C2, amended. The body of the new launch is the head set in the order in which the
  builder accepted the operations, followed by the terminator; the launch takes the
  next free index.
\<close>

theorem host_region_order:
  assumes "IdentifyOutsideCompiledOpsAtHead g cluster = Some head" and "head \<noteq> []"
    and "\<forall>op\<in>set head. op < op_count g"
  shows "created_launch (IsolateHeadExtractedOpsToLaunchOp g cluster head) = Some (op_count g) \<and>
         body_after (IsolateHeadExtractedOpsToLaunchOp g cluster head) (op_count g)
           = head @ [Suc (op_count g)]"
proof -
  have "Suc (op_count g) \<notin> set head" using assms(3) by auto
  from isolate_shape[OF assms(2) head_distinct[OF assms(1)] this, of cluster]
  show ?thesis by (auto simp: created_launch_def body_after_def)
qed

theorem host_region_order_witness:
  "IdentifyOutsideCompiledOpsAtHead interleaved 0 = Some [1, 3, 2] \<and> [1, 3, 2 :: nat] \<noteq> [] \<and>
   list_all (\<lambda>op. op < op_count interleaved) [1, 3, 2] \<and>
   created_launch (IsolateHeadExtractedOpsToLaunchOp interleaved 0 [1, 3, 2]) = Some 6 \<and>
   body_after (IsolateHeadExtractedOpsToLaunchOp interleaved 0 [1, 3, 2]) 6 = [1, 3, 2, 7]"
proof -
  have h1: "IdentifyOutsideCompiledOpsAtHead interleaved 0 = Some [1, 3, 2]" by code_simp
  have h2: "[1, 3, 2 :: nat] \<noteq> []" by simp
  have c: "op_count interleaved = 6" by code_simp
  have h3: "\<forall>op\<in>set [1, 3, 2]. op < op_count interleaved" by (simp add: c)
  from host_region_order[OF h1 h2 h3] h1 h3 show ?thesis
    by (simp add: c list_all_iff)
qed

text \<open>
  Claim C1 says that a non-empty head set with an empty output list creates no host region
  and leaves the body of the device region as it was. In \<open>unused_result\<close> the head set
  is \<open>[1]\<close>, no result of it is used, and yet launch 3 is created and operation 1 moves
  from the cluster into it.
\<close>

theorem empty_outputs_counterexample:
  "IdentifyOutsideCompiledOpsAtHead unused_result 0 = Some [1] \<and>
   GetHeadExtractedClusterOutputs unused_result [1] = [] \<and>
   region_body unused_result 0 = [1, 2] \<and>
   created_launch (IsolateHeadExtractedOpsToLaunchOp unused_result 0 [1]) = Some 3 \<and>
   body_after (IsolateHeadExtractedOpsToLaunchOp unused_result 0 [1]) 0 = [2] \<and>
   body_after (IsolateHeadExtractedOpsToLaunchOp unused_result 0 [1]) 3 = [1, 4]"
  by code_simp

text \<open>
  Claim C1, amended. With a non-empty head set and an empty output list the mutator still
  creates a launch; it has no results, and the body of the cluster loses exactly the
  head-set operations. (Only an empty head set returns without a launch.)
\<close>

theorem empty_outputs_still_hoisted:
  assumes "IdentifyOutsideCompiledOpsAtHead g cluster = Some head" and "head \<noteq> []"
    and "GetHeadExtractedClusterOutputs g head = []"
    and "\<forall>op\<in>set head. op < op_count g"
    and "cluster < op_count g"
    and "\<forall>op\<in>set (region_body g cluster). op < op_count g"
  shows "created_launch (IsolateHeadExtractedOpsToLaunchOp g cluster head) = Some (op_count g) \<and>
         results_after (IsolateHeadExtractedOpsToLaunchOp g cluster head) (op_count g) = 0 \<and>
         body_after (IsolateHeadExtractedOpsToLaunchOp g cluster head) cluster
           = filter (\<lambda>op. op \<notin> set head) (region_body g cluster)"
proof -
  have f: "Suc (op_count g) \<notin> set head" using assms(4) by auto
  have t: "Suc (op_count g) \<notin> set (region_body g cluster)" using assms(6) by auto
  have c: "cluster \<noteq> op_count g" using assms(5) by simp
  from isolate_shape[OF assms(2) head_distinct[OF assms(1)] f, of cluster]
  show ?thesis using assms(3) t c
    by (auto simp: created_launch_def body_after_def results_after_def)
qed

theorem empty_outputs_still_hoisted_witness:
  "IdentifyOutsideCompiledOpsAtHead unused_result 0 = Some [1] \<and> [1 :: nat] \<noteq> [] \<and>
   GetHeadExtractedClusterOutputs unused_result [1] = [] \<and>
   list_all (\<lambda>op. op < op_count unused_result) [1] \<and> 0 < op_count unused_result \<and>
   list_all (\<lambda>op. op < op_count unused_result) (region_body unused_result 0) \<and>
   created_launch (IsolateHeadExtractedOpsToLaunchOp unused_result 0 [1]) = Some 3 \<and>
   results_after (IsolateHeadExtractedOpsToLaunchOp unused_result 0 [1]) 3 = 0 \<and>
   body_after (IsolateHeadExtractedOpsToLaunchOp unused_result 0 [1]) 0 = [2]"
proof -
  have h1: "IdentifyOutsideCompiledOpsAtHead unused_result 0 = Some [1]" by code_simp
  have h2: "[1 :: nat] \<noteq> []" by simp
  have h3: "GetHeadExtractedClusterOutputs unused_result [1] = []" by code_simp
  have c: "op_count unused_result = 3" and b: "region_body unused_result 0 = [1, 2]"
    by code_simp+
  have h4: "\<forall>op\<in>set [1]. op < op_count unused_result" by (simp add: c)
  have h5: "0 < op_count unused_result" by (simp add: c)
  have h6: "\<forall>op\<in>set (region_body unused_result 0). op < op_count unused_result"
    by (simp add: c b)
  from empty_outputs_still_hoisted[OF h1 h2 h3 h4 h5 h6] h1 h3 show ?thesis
    by (simp add: c b)
qed

text \<open>
  Claim C10 at \<open>tagged_above\<close>: the tagged operation 1 lies in the module body, before
  cluster 0, and its result is a boundary input of the cluster. The builder accepts 2, the
  user of that input inside the cluster, and then reaches 1 through the uses of
  \<open>%arg0\<close>, although 1 does not lie in the cluster: the head set is \<open>[2, 1]\<close>. The
  mutator moves both into launch 5, where 2 reads the result of 1 but stands before it.
\<close>

theorem producer_placed_after_consumer:
  "IdentifyOutsideCompiledOpsAtHead tagged_above 0 = Some [2, 1] \<and>
   created_launch (IsolateHeadExtractedOpsToLaunchOp tagged_above 0 [2, 1]) = Some 5 \<and>
   body_after (IsolateHeadExtractedOpsToLaunchOp tagged_above 0 [2, 1]) 5 = [2, 1, 6] \<and>
   operands_after (IsolateHeadExtractedOpsToLaunchOp tagged_above 0 [2, 1]) 2 = [OpResult 1 0] \<and>
   getOpResults tagged_above 1 = [OpResult 1 0] \<and>
   \<not> precedes 1 2 (body_after (IsolateHeadExtractedOpsToLaunchOp tagged_above 0 [2, 1]) 5)"
  by code_simp

text \<open>
  Claim C6 at \<open>two_users\<close>: the output \<open>%1\<close> has two uses owned by operations outside
  the head set. After the mutator the first use of the chain, owned by 3, reads result 0 of
  launch 5; the use owned by 2 still reads \<open>%1\<close>, which now lives in the launch body.
\<close>

theorem second_user_not_redirected:
  "IdentifyOutsideCompiledOpsAtHead two_users 0 = Some [1] \<and>
   GetHeadExtractedClusterOutputs two_users [1] = [OpResult 1 0] \<and>
   use_list two_users (OpResult 1 0) = [(3, 0), (2, 0)] \<and>
   created_launch (IsolateHeadExtractedOpsToLaunchOp two_users 0 [1]) = Some 5 \<and>
   body_after (IsolateHeadExtractedOpsToLaunchOp two_users 0 [1]) 0 = [2, 3, 4] \<and>
   operands_after (IsolateHeadExtractedOpsToLaunchOp two_users 0 [1]) 3 = [OpResult 5 0] \<and>
   operands_after (IsolateHeadExtractedOpsToLaunchOp two_users 0 [1]) 2 = [OpResult 1 0]"
  by code_simp

text \<open>
  Claim C8 at \<open>shared_input\<close>: after the first run, the second run finds the head set
  \<open>[1]\<close> for cluster 0 (operation 1 now lies in launch 4 and still uses \<open>%arg0\<close>),
  creates launch 6, moves 1 from launch 4 into it and makes the terminator of launch 4
  read the result of launch 6.
\<close>

theorem second_run_changes_module:
  "blocks_after_run (runOnOperation some_devices shared_input)
     = Some ([4, 0], [[2, 3], [], [], [], [1, 5], []]) \<and>
   head_after_run (runOnOperation some_devices shared_input) 0 = Some [1] \<and>
   blocks_after_run (rerun some_devices (runOnOperation some_devices shared_input))
     = Some ([4, 6, 0], [[2, 3], [], [], [], [5], [], [1, 7], []]) \<and>
   operands_after_run (rerun some_devices (runOnOperation some_devices shared_input))
     = Some [[], [BlockArgument 0], [OpResult 4 0, BlockArgument 0], [], [], [OpResult 6 0],
             [], [OpResult 1 0]]"
  by code_simp


end
